theory Spec2Isabelle
  imports Main "HOL-Library.Sublist"
begin

section \<open>The condensed memory block\<close>

text \<open>
  The notebook defines one class, \<open>CondensedMemoryBlock\<close>, with two methods: \<open>_aget\<close>
  joins the buffer with newlines, \<open>_aput\<close> renders each chat message to one string, appends
  it to the buffer and then drops entries from the front while the buffer's token count
  exceeds \<open>token_limit\<close>. This theory embeds both methods and the values they handle.
\<close>

subsection \<open>Python values and the operations the methods use\<close>

text \<open>
  \<open>additional_kwargs\<close> is a \<open>Dict[str, Any]\<close>. The values that reach the code are
  JSON-like, so \<open>Any\<close> is the datatype below (floats are left out). A dictionary is an
  association list in insertion order, as Python iterates it; a well-formed dictionary has
  distinct keys.
\<close>

datatype PyVal =
    PyNone
  | PyBool bool
  | PyInt int
  | PyStr string
  | PyList "PyVal list"
  | PyDict "(string \<times> PyVal) list"

type_synonym PyDictT = "(string \<times> PyVal) list"

datatype error = KeyError string | TypeError | ValueError

text \<open>\<open>sep.join(xs)\<close>.\<close>

fun join :: "string \<Rightarrow> string list \<Rightarrow> string" where
  "join sep [] = []"
| "join sep [x] = x"
| "join sep (x # y # ys) = x @ sep @ join sep (y # ys)"

definition NL :: string where
  "NL = [CHR 0x0A]"

text \<open>\<open>d[k] = v\<close>: an existing key keeps its position, a new key goes to the end.\<close>

fun dict_setitem :: "PyDictT \<Rightarrow> string \<Rightarrow> PyVal \<Rightarrow> PyDictT" where
  "dict_setitem [] k v = [(k, v)]"
| "dict_setitem ((k', v') # d) k v =
     (if k' = k then (k, v) # d else (k', v') # dict_setitem d k v)"

text \<open>
  \<open>x[k]\<close> with a string \<open>k\<close>: a dictionary looks the key up and raises \<open>KeyError\<close> when it
  is absent; every other value raises \<open>TypeError\<close> (strings and lists take integer indices,
  the rest is not subscriptable).
\<close>

fun py_getitem :: "PyVal \<Rightarrow> string \<Rightarrow> error + PyVal" where
  "py_getitem (PyDict d) k =
     (case map_of d k of None \<Rightarrow> Inl (KeyError k) | Some v \<Rightarrow> Inr v)"
| "py_getitem _ k = Inl TypeError"

text \<open>
  \<open>for x in val\<close>: a list yields its elements, a dictionary its keys, a string its
  characters; \<open>None\<close>, booleans and integers raise \<open>TypeError\<close>.
\<close>

fun py_iter :: "PyVal \<Rightarrow> error + PyVal list" where
  "py_iter (PyList xs) = Inr xs"
| "py_iter (PyDict d) = Inr (map (\<lambda>kv. PyStr (fst kv)) d)"
| "py_iter (PyStr s) = Inr (map (\<lambda>c. PyStr [c]) s)"
| "py_iter _ = Inl TypeError"

subsection \<open>Library code taken as parameters\<close>

text \<open>
  Two pieces of what \<open>_aput\<close> calls are not code of the notebook, and both can raise.
  \<^item> The f-string \<open>f"\n({kwargs})"\<close> formats the dictionary with the interpreter's \<open>str\<close>.
    It is the parameter \<open>py_str\<close> of the functions below, from a dictionary to its text or
    to the exception that the conversion raises (CPython raises \<open>ValueError\<close> on an integer
    of more than 4300 digits, for one).
  \<^item> \<open>tokenizer.encode\<close> is a field of the block, from a string to its token list or to
    the exception that the encoder raises (the default encoder raises \<open>ValueError\<close> on text
    that contains a special token).
  Nothing is assumed about either, so every theorem holds for whatever they compute.
\<close>

subsection \<open>Chat messages\<close>

text \<open>
  \<open>ChatMessage\<close> comes from the agent framework: a role, content blocks and
  \<open>additional_kwargs\<close>. The code reads \<open>block.text\<close> of the blocks that are a \<open>TextBlock\<close>
  and skips every other kind of block.
\<close>

datatype MessageRole = SYSTEM | USER | ASSISTANT | TOOL

datatype ContentBlock = TextBlock string | OtherBlock string

record ChatMessage =
  role :: MessageRole
  blocks :: "ContentBlock list"
  additional_kwargs :: PyDictT

subsection \<open>The block and its two methods\<close>

text \<open>
  The fields the class declares. \<open>token_limit\<close> is a Python \<open>int\<close> that nothing validates,
  so it may be zero or negative.
\<close>

record CondensedMemoryBlock =
  current_memory :: "string list"
  token_limit :: int
  tokenizer :: "string \<Rightarrow> error + nat list"

datatype outcome = Returned | Raised error

text \<open>\<open>_aget\<close>: the result and the block after the call.\<close>

definition aget :: "CondensedMemoryBlock \<Rightarrow> string \<times> CondensedMemoryBlock" where
  "aget self = (join NL (current_memory self), self)"

text \<open>The generator \<open>block.text for block in message.blocks if isinstance(block, TextBlock)\<close>.\<close>

fun block_texts :: "ContentBlock list \<Rightarrow> string list" where
  "block_texts [] = []"
| "block_texts (TextBlock t # bs) = t # block_texts bs"
| "block_texts (OtherBlock _ # bs) = block_texts bs"

text \<open>
  The list comprehension over \<open>val\<close> under the key \<open>tool_calls\<close>. The dictionary display
  evaluates \<open>tool_call["function"]["name"]\<close> before \<open>tool_call["function"]["arguments"]\<close>.
\<close>

definition reduce_tool_call :: "PyVal \<Rightarrow> error + PyVal" where
  "reduce_tool_call tool_call =
     (case py_getitem tool_call ''function'' of
        Inl e \<Rightarrow> Inl e
      | Inr f \<Rightarrow>
         (case py_getitem f ''name'' of
            Inl e \<Rightarrow> Inl e
          | Inr n \<Rightarrow>
             (case py_getitem tool_call ''function'' of
                Inl e \<Rightarrow> Inl e
              | Inr g \<Rightarrow>
                 (case py_getitem g ''arguments'' of
                    Inl e \<Rightarrow> Inl e
                  | Inr a \<Rightarrow> Inr (PyDict [(''name'', n), (''args'', a)])))))"

fun reduce_all :: "PyVal list \<Rightarrow> error + PyVal list" where
  "reduce_all [] = Inr []"
| "reduce_all (tool_call # rest) =
     (case reduce_tool_call tool_call of
        Inl e \<Rightarrow> Inl e
      | Inr r \<Rightarrow> (case reduce_all rest of Inl e \<Rightarrow> Inl e | Inr rs \<Rightarrow> Inr (r # rs)))"

definition reduce_tool_calls :: "PyVal \<Rightarrow> error + PyVal" where
  "reduce_tool_calls val =
     (case py_iter val of
        Inl e \<Rightarrow> Inl e
      | Inr tool_calls \<Rightarrow>
         (case reduce_all tool_calls of Inl e \<Rightarrow> Inl e | Inr rs \<Rightarrow> Inr (PyList rs)))"

text \<open>The loop \<open>for key, val in message.additional_kwargs.items()\<close>, building \<open>kwargs\<close>.\<close>

fun filter_kwargs :: "PyDictT \<Rightarrow> PyDictT \<Rightarrow> error + PyDictT" where
  "filter_kwargs kwargs [] = Inr kwargs"
| "filter_kwargs kwargs ((key, val) # items) =
     (if key = ''tool_calls'' then
        (case reduce_tool_calls val of
           Inl e \<Rightarrow> Inl e
         | Inr val' \<Rightarrow> filter_kwargs (dict_setitem kwargs key val') items)
      else if key \<noteq> ''session_id'' \<and> key \<noteq> ''tool_call_id'' then
        filter_kwargs (dict_setitem kwargs key val) items
      else filter_kwargs kwargs items)"

text \<open>
  The body of the loop over \<open>messages\<close>, up to the string that is appended. The
  conditional expression formats \<open>kwargs\<close> only when it is not empty.
\<close>

definition memory_str :: "(PyDictT \<Rightarrow> error + string) \<Rightarrow> ChatMessage \<Rightarrow> error + string" where
  "memory_str py_str message =
     (let text_contents = join NL (block_texts (blocks message));
          s = (if text_contents \<noteq> [] then text_contents else [])
      in case filter_kwargs [] (additional_kwargs message) of
           Inl e \<Rightarrow> Inl e
         | Inr kwargs \<Rightarrow>
             (if kwargs \<noteq> [] then
                (case py_str kwargs of
                   Inl e \<Rightarrow> Inl e
                 | Inr r \<Rightarrow> Inr (s @ NL @ ''('' @ r @ '')''))
              else Inr s))"

text \<open>
  The loop over \<open>messages\<close>. \<open>append\<close> mutates the buffer in place, so when a message
  raises, the entries of the messages before it stay in the buffer.
\<close>

fun append_messages ::
  "(PyDictT \<Rightarrow> error + string) \<Rightarrow> string list \<Rightarrow> ChatMessage list \<Rightarrow> error option \<times> string list" where
  "append_messages py_str mem [] = (None, mem)"
| "append_messages py_str mem (message # rest) =
     (case memory_str py_str message of
        Inl e \<Rightarrow> (Some e, mem)
      | Inr s \<Rightarrow> append_messages py_str (mem @ [s]) rest)"

text \<open>
  \<open>sum(len(self.tokenizer.encode(message)) for message in self.current_memory)\<close>: the
  entries are encoded in order, and the first exception of the encoder ends the sum.
\<close>

fun message_length :: "(string \<Rightarrow> error + nat list) \<Rightarrow> string list \<Rightarrow> error + nat" where
  "message_length tok [] = Inr 0"
| "message_length tok (message # rest) =
     (case tok message of
        Inl e \<Rightarrow> Inl e
      | Inr ts \<Rightarrow>
         (case message_length tok rest of Inl e \<Rightarrow> Inl e | Inr n \<Rightarrow> Inr (length ts + n)))"

text \<open>
  The sum before the loop and the \<open>while\<close> loop. \<open>mem[1:]\<close> is \<open>drop 1 mem\<close>, also on the
  empty list. The loop need not end, so the function returns an option and \<open>None\<close> means
  that it runs forever. Otherwise the result is the exception of the encoder, if any, and
  the buffer as the loop leaves it.
\<close>

partial_function (option) trim ::
  "(string \<Rightarrow> error + nat list) \<Rightarrow> int \<Rightarrow> string list \<Rightarrow> (error option \<times> string list) option" where
  "trim tok limit mem =
     (case message_length tok mem of
        Inl e \<Rightarrow> Some (Some e, mem)
      | Inr n \<Rightarrow> if int n > limit then trim tok limit (drop 1 mem) else Some (None, mem))"

declare trim.simps [code]

text \<open>
  \<open>_aput\<close>: \<open>None\<close> when the call never returns, otherwise how it ended and the block it
  leaves. An exception in the loop over the messages leaves the entries appended so far and
  skips the trimming; an exception of the encoder leaves the buffer as it is at that point.
\<close>

definition aput ::
  "(PyDictT \<Rightarrow> error + string) \<Rightarrow> CondensedMemoryBlock \<Rightarrow> ChatMessage list
     \<Rightarrow> (outcome \<times> CondensedMemoryBlock) option" where
  "aput py_str self messages =
     (case append_messages py_str (current_memory self) messages of
        (Some e, mem) \<Rightarrow> Some (Raised e, self\<lparr>current_memory := mem\<rparr>)
      | (None, mem) \<Rightarrow>
          (case trim (tokenizer self) (token_limit self) mem of
             None \<Rightarrow> None
           | Some (Some e, mem') \<Rightarrow> Some (Raised e, self\<lparr>current_memory := mem'\<rparr>)
           | Some (None, mem') \<Rightarrow> Some (Returned, self\<lparr>current_memory := mem'\<rparr>)))"

text \<open>
  A caller that makes one \<open>_aput\<close> call after the other, on the same block. An exception
  propagates, so the calls after it are not made.
\<close>

fun aput_calls ::
  "(PyDictT \<Rightarrow> error + string) \<Rightarrow> CondensedMemoryBlock \<Rightarrow> ChatMessage list list
     \<Rightarrow> (outcome \<times> CondensedMemoryBlock) option" where
  "aput_calls py_str self [] = Some (Returned, self)"
| "aput_calls py_str self (messages # calls) =
     (case aput py_str self messages of
        None \<Rightarrow> None
      | Some (Raised e, self') \<Rightarrow> Some (Raised e, self')
      | Some (Returned, self') \<Rightarrow> aput_calls py_str self' calls)"






text \<open>
  Stand-ins for the encoder, used where a theorem is run on a concrete input: one token
  per word (a word is a maximal run of characters other than the space), and one token per
  character.
\<close>

fun split_on :: "char \<Rightarrow> string \<Rightarrow> string list" where
  "split_on c [] = [[]]"
| "split_on c (x # xs) =
     (if x = c then [] # split_on c xs
      else (case split_on c xs of [] \<Rightarrow> [[x]] | w # ws \<Rightarrow> (x # w) # ws))"

definition word_tokenizer :: "string \<Rightarrow> error + nat list" where
  "word_tokenizer s = Inr (map length (filter (\<lambda>w. w \<noteq> []) (split_on (CHR '' '') s)))"

definition char_tokenizer :: "string \<Rightarrow> error + nat list" where
  "char_tokenizer s = Inr (map of_char s)"

section \<open>Properties\<close>

subsection \<open>Token counts and the trimming loop\<close>

lemma message_length_encoded:
  "message_length tok mem = Inr n \<Longrightarrow>
     \<exists>toks. map tok mem = map Inr toks \<and> n = sum_list (map length toks)"
proof (induction mem arbitrary: n)
  case Nil
  then show ?case by simp
next
  case (Cons x xs)
  from Cons.prems obtain ts m where
    x: "tok x = Inr ts" and m: "message_length tok xs = Inr m" and n: "n = length ts + m"
    by (auto split: sum.splits)
  from Cons.IH [OF m] obtain toks where "map tok xs = map Inr toks" "m = sum_list (map length toks)"
    by blast
  with x n show ?case by (intro exI[of _ "ts # toks"]) simp
qed

lemma message_length_of_encoded:
  "map tok mem = map Inr toks \<Longrightarrow> message_length tok mem = Inr (sum_list (map length toks))"
proof (induction mem arbitrary: toks)
  case Nil
  then show ?case by simp
next
  case (Cons x xs)
  then obtain ts toks' where "toks = ts # toks'" "tok x = Inr ts" "map tok xs = map Inr toks'"
    by (cases toks) auto
  with Cons.IH [of toks'] show ?case by simp
qed

lemma message_length_raises:
  "message_length tok mem = Inl e \<Longrightarrow> \<exists>s\<in>set mem. tok s = Inl e"
  by (induction mem) (auto split: sum.splits)

lemma message_length_defined:
  "(\<forall>s\<in>set mem. \<exists>ts. tok s = Inr ts) \<Longrightarrow> \<exists>n. message_length tok mem = Inr n"
proof (cases "message_length tok mem")
  case (Inl e)
  assume "\<forall>s\<in>set mem. \<exists>ts. tok s = Inr ts"
  with message_length_raises [OF Inl] show ?thesis by auto
next
  case (Inr n)
  then show ?thesis by blast
qed

lemma message_length_ge_member:
  "message_length tok mem = Inr n \<Longrightarrow> s \<in> set mem \<Longrightarrow> tok s = Inr ts \<Longrightarrow> length ts \<le> n"
  by (induction mem arbitrary: n) (auto split: sum.splits)

lemma message_length_zero:
  "message_length tok mem = Inr 0 \<Longrightarrow> \<forall>s\<in>set mem. tok s = Inr []"
  by (induction mem) (auto split: sum.splits)

text \<open>Facts about a result of the loop, by induction over its unfolding.\<close>

lemma trim_Returned_budget:
  assumes "trim tok limit mem = Some (None, mem')"
  shows "\<exists>n. message_length tok mem' = Inr n \<and> int n \<le> limit"
proof -
  have "fst (None :: error option, mem') = None \<longrightarrow>
          (\<exists>n. message_length tok (snd (None :: error option, mem')) = Inr n \<and> int n \<le> limit)"
  proof (rule trim.raw_induct[where P = "\<lambda>tok limit mem y.
            fst y = None \<longrightarrow> (\<exists>n. message_length tok (snd y) = Inr n \<and> int n \<le> limit)", OF _ assms])
    fix f tok limit mem y
    assume IH: "\<And>tok limit mem y. f tok limit mem = Some y \<Longrightarrow>
                  fst y = None \<longrightarrow> (\<exists>n. message_length tok (snd y) = Inr n \<and> int n \<le> limit)"
      and body: "(case message_length tok mem of
                    Inl e \<Rightarrow> Some (Some e, mem)
                  | Inr n \<Rightarrow> if limit < int n then f tok limit (drop 1 mem) else Some (None, mem)) = Some y"
    show "fst y = None \<longrightarrow> (\<exists>n. message_length tok (snd y) = Inr n \<and> int n \<le> limit)"
    proof (cases "message_length tok mem")
      case (Inl e)
      with body show ?thesis by auto
    next
      case (Inr n)
      show ?thesis
      proof (cases "limit < int n")
        case True
        with body Inr have "f tok limit (drop 1 mem) = Some y" by simp
        then show ?thesis by (rule IH)
      next
        case False
        with body Inr show ?thesis by auto
      qed
    qed
  qed
  then show ?thesis by simp
qed


lemma trim_Some_limit:
  assumes "trim tok limit mem = Some y"
  shows "0 \<le> limit \<or> fst y \<noteq> None"
proof (rule trim.raw_induct[where P = "\<lambda>tok limit mem y. 0 \<le> limit \<or> fst y \<noteq> None", OF _ assms])
  fix f tok limit mem y
  assume IH: "\<And>tok limit mem y. f tok limit mem = Some y \<Longrightarrow> 0 \<le> limit \<or> fst y \<noteq> None"
    and body: "(case message_length tok mem of
                  Inl e \<Rightarrow> Some (Some e, mem)
                | Inr n \<Rightarrow> if limit < int n then f tok limit (drop 1 mem) else Some (None, mem)) = Some y"
  show "0 \<le> limit \<or> fst y \<noteq> None"
  proof (cases "message_length tok mem")
    case (Inl e)
    with body show ?thesis by auto
  next
    case (Inr n)
    show ?thesis
    proof (cases "limit < int n")
      case True
      with body Inr have "f tok limit (drop 1 mem) = Some y" by simp
      then show ?thesis by (rule IH)
    next
      case False
      then show ?thesis by simp
    qed
  qed
qed

lemma trim_Some_drop:
  assumes "trim tok limit mem = Some y"
  shows "\<exists>k\<le>length mem. snd y = drop k mem"
proof (rule trim.raw_induct[where P = "\<lambda>tok limit mem y. \<exists>k\<le>length mem. snd y = drop k mem", OF _ assms])
  fix f tok limit mem y
  assume IH: "\<And>tok limit mem y. f tok limit mem = Some y \<Longrightarrow> \<exists>k\<le>length mem. snd y = drop k mem"
    and body: "(case message_length tok mem of
                  Inl e \<Rightarrow> Some (Some e, mem)
                | Inr n \<Rightarrow> if limit < int n then f tok limit (drop 1 mem) else Some (None, mem)) = Some y"
  show "\<exists>k\<le>length mem. snd y = drop k mem"
  proof (cases "message_length tok mem")
    case (Inl e)
    with body have "snd y = drop 0 mem" by auto
    then show ?thesis by blast
  next
    case (Inr n)
    show ?thesis
    proof (cases "limit < int n")
      case True
      with body Inr have "f tok limit (drop 1 mem) = Some y" by simp
      from IH [OF this] obtain k where k: "k \<le> length (drop 1 mem)" "snd y = drop k (drop 1 mem)"
        by blast
      show ?thesis
      proof (cases mem)
        case Nil
        with k show ?thesis by simp
      next
        case (Cons x xs)
        with k have "Suc k \<le> length mem" "snd y = drop (Suc k) mem" by simp_all
        then show ?thesis by blast
      qed
    next
      case False
      with body Inr have "snd y = drop 0 mem" by auto
      then show ?thesis by blast
    qed
  qed
qed

lemma trim_total:
  "0 \<le> limit \<Longrightarrow> \<exists>y. trim tok limit mem = Some y"
proof (induction mem)
  case Nil
  then show ?case by (subst trim.simps) simp
next
  case (Cons x xs)
  then obtain y where y: "trim tok limit xs = Some y" by blast
  show ?case
  proof (cases "message_length tok (x # xs)")
    case (Inl e)
    then show ?thesis by (subst trim.simps) simp
  next
    case (Inr n)
    with y show ?thesis by (subst trim.simps) simp
  qed
qed

lemma trim_encodable:
  assumes "trim tok limit mem = Some (r, mem')" and "\<forall>s\<in>set mem. \<exists>ts. tok s = Inr ts"
  shows "r = None"
proof (cases r)
  case None
  then show ?thesis .
next
  case (Some e)
  from assms(1) Some have t: "trim tok limit mem = Some (Some e, mem')" by simp
  have "\<forall>e'. fst (Some e, mem') = Some e' \<longrightarrow> (\<exists>s\<in>set mem. tok s = Inl e')"
  proof (rule trim.raw_induct[where P = "\<lambda>tok limit mem y.
            \<forall>e. fst y = Some e \<longrightarrow> (\<exists>s\<in>set mem. tok s = Inl e)", OF _ t])
    fix f tok limit mem y
    assume IH: "\<And>tok limit mem y. f tok limit mem = Some y \<Longrightarrow>
                  \<forall>e. fst y = Some e \<longrightarrow> (\<exists>s\<in>set mem. tok s = Inl e)"
      and body: "(case message_length tok mem of
                    Inl e \<Rightarrow> Some (Some e, mem)
                  | Inr n \<Rightarrow> if limit < int n then f tok limit (drop 1 mem) else Some (None, mem)) = Some y"
    show "\<forall>e. fst y = Some e \<longrightarrow> (\<exists>s\<in>set mem. tok s = Inl e)"
    proof (cases "message_length tok mem")
      case (Inl e)
      with body message_length_raises [OF Inl] show ?thesis by auto
    next
      case (Inr n)
      show ?thesis
      proof (cases "limit < int n")
        case True
        with body Inr have "f tok limit (drop 1 mem) = Some y" by simp
        from IH [OF this] show ?thesis by (meson in_set_dropD)
      next
        case False
        with body Inr show ?thesis by auto
      qed
    qed
  qed
  then obtain s where "s \<in> set mem" "tok s = Inl e" by auto
  with assms(2) show ?thesis by force
qed

lemma trim_negative:
  assumes "limit < 0" and "\<forall>s\<in>set mem. \<exists>ts. tok s = Inr ts"
  shows "trim tok limit mem = None"
proof (cases "trim tok limit mem")
  case None
  then show ?thesis .
next
  case (Some y)
  obtain r mem' where y: "y = (r, mem')" by (cases y)
  from trim_encodable [OF Some [unfolded y] assms(2)] have "r = None" .
  moreover from trim_Some_limit [OF Some] assms(1) y have "r \<noteq> None" by simp
  ultimately show ?thesis by simp
qed

lemma trim_within_budget:
  "message_length tok mem = Inr n \<Longrightarrow> int n \<le> limit \<Longrightarrow> trim tok limit mem = Some (None, mem)"
  by (subst trim.simps) simp

lemma aput_fields:
  "aput py_str self messages = Some (r, self') \<Longrightarrow>
     token_limit self' = token_limit self \<and> tokenizer self' = tokenizer self"
  by (auto simp: aput_def split: prod.splits option.splits)

lemma aput_total:
  assumes "0 \<le> token_limit self"
  shows "\<exists>r self'. aput py_str self messages = Some (r, self')"
proof (cases "append_messages py_str (current_memory self) messages")
  case (Pair e mem)
  show ?thesis
  proof (cases e)
    case None
    from trim_total [OF assms, of "tokenizer self" mem]
    obtain y where "trim (tokenizer self) (token_limit self) mem = Some y" by blast
    with Pair None show ?thesis
      by (cases y) (auto simp: aput_def split: option.splits)
  next
    case (Some err)
    with Pair show ?thesis by (simp add: aput_def)
  qed
qed

lemma aput_Returned_budget:
  assumes "aput py_str self messages = Some (Returned, self')"
  shows "\<exists>toks. map (tokenizer self') (current_memory self') = map Inr toks \<and>
           int (sum_list (map length toks)) \<le> token_limit self'"
proof -
  from assms obtain mem mem' where
    t: "trim (tokenizer self) (token_limit self) mem = Some (None, mem')" and
    s: "self' = self\<lparr>current_memory := mem'\<rparr>"
    by (auto simp: aput_def split: prod.splits option.splits)
  from trim_Returned_budget [OF t] obtain n where
    n: "message_length (tokenizer self) mem' = Inr n" "int n \<le> token_limit self" by blast
  from message_length_encoded [OF n(1)] n(2) s show ?thesis by auto
qed

lemma aput_calls_fields:
  "aput_calls py_str self calls = Some (r, self') \<Longrightarrow>
     token_limit self' = token_limit self \<and> tokenizer self' = tokenizer self"
proof (induction calls arbitrary: self)
  case Nil
  then show ?case by simp
next
  case (Cons messages calls)
  from Cons.prems obtain r1 self1 where step: "aput py_str self messages = Some (r1, self1)"
    by (auto split: option.splits)
  show ?case
  proof (cases r1)
    case Returned
    with step Cons.prems have "aput_calls py_str self1 calls = Some (r, self')" by simp
    from Cons.IH [OF this] aput_fields [OF step] show ?thesis by simp
  next
    case (Raised e)
    with step Cons.prems have "self' = self1" by simp
    with aput_fields [OF step] show ?thesis by simp
  qed
qed

lemma aput_calls_total:
  "0 \<le> token_limit self \<Longrightarrow> \<exists>r self'. aput_calls py_str self calls = Some (r, self')"
proof (induction calls arbitrary: self)
  case Nil
  then show ?case by simp
next
  case (Cons messages calls)
  from aput_total [OF Cons.prems, of py_str messages]
  obtain r self1 where step: "aput py_str self messages = Some (r, self1)" by blast
  show ?case
  proof (cases r)
    case Returned
    from aput_fields [OF step] Cons.prems have "0 \<le> token_limit self1" by simp
    from Cons.IH [OF this] step Returned show ?thesis by simp
  next
    case (Raised e)
    with step show ?thesis by simp
  qed
qed

lemma aput_calls_Returned_budget:
  "calls \<noteq> [] \<Longrightarrow> aput_calls py_str self calls = Some (Returned, self') \<Longrightarrow>
     \<exists>toks. map (tokenizer self') (current_memory self') = map Inr toks \<and>
            int (sum_list (map length toks)) \<le> token_limit self'"
proof (induction calls arbitrary: self)
  case Nil
  then show ?case by simp
next
  case (Cons messages calls)
  from Cons.prems(2) obtain self1 where
    step: "aput py_str self messages = Some (Returned, self1)" and
    rest: "aput_calls py_str self1 calls = Some (Returned, self')"
    by (auto split: option.splits prod.splits outcome.splits)
  show ?case
  proof (cases "calls = []")
    case True
    with rest have "self' = self1" by simp
    with aput_Returned_budget [OF step] show ?thesis by simp
  next
    case False
    from Cons.IH [OF False rest] show ?thesis .
  qed
qed

subsection \<open>The notebook's runs\<close>

text \<open>
  With a generous limit the four messages of the notebook come back from \<open>_aget\<close> as four
  lines. An assistant message with empty text and one tool call hands the reduced record
  to \<open>str\<close> and is rendered as the notebook prints it: an empty line, then the text of
  the dictionary in parentheses.
\<close>

lemma notebook_four_messages:
  "map_option (\<lambda>(r, self'). (r, fst (aget self')))
     (aput py_str \<lparr>current_memory = [], token_limit = 50000, tokenizer = word_tokenizer\<rparr>
        [\<lparr>role = USER, blocks = [TextBlock ''Hello! My name is Megan''], additional_kwargs = []\<rparr>,
         \<lparr>role = ASSISTANT, blocks = [TextBlock ''Hello! How can I help you?''], additional_kwargs = []\<rparr>,
         \<lparr>role = USER, blocks = [TextBlock ''What is the capital of France?''], additional_kwargs = []\<rparr>,
         \<lparr>role = ASSISTANT, blocks = [TextBlock ''The capital of France is Paris''], additional_kwargs = []\<rparr>])
   = Some (Returned, ''Hello! My name is Megan'' @ [CHR 0x0A] @ ''Hello! How can I help you?'' @ [CHR 0x0A]
        @ ''What is the capital of France?'' @ [CHR 0x0A] @ ''The capital of France is Paris'')"
  by (simp add: aput_def aget_def memory_str_def NL_def trim.simps word_tokenizer_def)

lemma notebook_tool_call_entry:
  "memory_str py_str \<lparr>role = ASSISTANT, blocks = [TextBlock []],
      additional_kwargs = [(''tool_calls'', PyList [PyDict [(''id'', PyStr ''call_1''),
         (''function'', PyDict [(''name'', PyStr ''divide''), (''arguments'', PyStr ''{}'')]),
         (''type'', PyStr ''function'')]])]\<rparr>
   = (case py_str [(''tool_calls'', PyList [PyDict [(''name'', PyStr ''divide''), (''args'', PyStr ''{}'')]])] of
        Inl e \<Rightarrow> Inl e
      | Inr r \<Rightarrow> Inr (CHR 0x0A # CHR ''('' # r @ [CHR '')'']))"
  by (simp add: memory_str_def NL_def reduce_tool_calls_def reduce_tool_call_def split: sum.splits)

subsection \<open>The token budget\<close>

text \<open>
  C1. With a non-negative \<open>token_limit\<close>, every sequence of \<open>_aput\<close> calls ends (each call
  returns or raises). Whenever the last call of a non-empty sequence has returned, the
  block still has the configured limit and encoder, the encoder gives a token list for
  every retained entry, and the lengths of these token lists add up to at most
  \<open>token_limit\<close>. The starting block is arbitrary, so the buffer may hold anything before
  the first call.
\<close>

theorem budget_after_every_put:
  assumes "0 \<le> token_limit self"
  shows "(\<exists>r self'. aput_calls py_str self calls = Some (r, self')) \<and>
         (\<forall>self'. calls \<noteq> [] \<and> aput_calls py_str self calls = Some (Returned, self') \<longrightarrow>
            token_limit self' = token_limit self \<and> tokenizer self' = tokenizer self \<and>
            (\<exists>toks. map (tokenizer self) (current_memory self') = map Inr toks \<and>
                    int (sum_list (map length toks)) \<le> token_limit self))"
proof -
  have "\<forall>self'. calls \<noteq> [] \<and> aput_calls py_str self calls = Some (Returned, self') \<longrightarrow>
            token_limit self' = token_limit self \<and> tokenizer self' = tokenizer self \<and>
            (\<exists>toks. map (tokenizer self) (current_memory self') = map Inr toks \<and>
                    int (sum_list (map length toks)) \<le> token_limit self)"
  proof (intro allI impI)
    fix self' assume h: "calls \<noteq> [] \<and> aput_calls py_str self calls = Some (Returned, self')"
    then have f: "token_limit self' = token_limit self \<and> tokenizer self' = tokenizer self"
      using aput_calls_fields by blast
    from h aput_calls_Returned_budget [of calls py_str self self'] f
    show "token_limit self' = token_limit self \<and> tokenizer self' = tokenizer self \<and>
            (\<exists>toks. map (tokenizer self) (current_memory self') = map Inr toks \<and>
                    int (sum_list (map length toks)) \<le> token_limit self)"
      by simp
  qed
  with aput_calls_total [OF assms] show ?thesis by blast
qed

theorem budget_after_every_put_witness:
  "aput_calls (\<lambda>kwargs. Inr [])
      \<lparr>current_memory = [], token_limit = 4, tokenizer = word_tokenizer\<rparr>
      [[\<lparr>role = USER, blocks = [TextBlock ''Hello my name''], additional_kwargs = []\<rparr>],
       [\<lparr>role = ASSISTANT, blocks = [TextBlock ''is Megan ok''], additional_kwargs = []\<rparr>]]
     = Some (Returned, \<lparr>current_memory = [''is Megan ok''], token_limit = 4, tokenizer = word_tokenizer\<rparr>)
   \<and> (\<exists>toks. map word_tokenizer [''is Megan ok''] = map Inr toks \<and>
              int (sum_list (map length toks)) \<le> 4)"
proof -
  have run: "aput_calls (\<lambda>kwargs. Inr [])
      \<lparr>current_memory = [], token_limit = 4, tokenizer = word_tokenizer\<rparr>
      [[\<lparr>role = USER, blocks = [TextBlock ''Hello my name''], additional_kwargs = []\<rparr>],
       [\<lparr>role = ASSISTANT, blocks = [TextBlock ''is Megan ok''], additional_kwargs = []\<rparr>]]
     = Some (Returned, \<lparr>current_memory = [''is Megan ok''], token_limit = 4, tokenizer = word_tokenizer\<rparr>)"
    by (simp add: aput_def memory_str_def NL_def trim.simps word_tokenizer_def)
  from budget_after_every_put [of "\<lparr>current_memory = [], token_limit = 4, tokenizer = word_tokenizer\<rparr>"
      "\<lambda>kwargs. Inr []"
      "[[\<lparr>role = USER, blocks = [TextBlock ''Hello my name''], additional_kwargs = []\<rparr>],
       [\<lparr>role = ASSISTANT, blocks = [TextBlock ''is Megan ok''], additional_kwargs = []\<rparr>]]"]
    run
  show ?thesis by simp
qed

subsection \<open>Eviction and the newest entry\<close>

lemma trim_newest_over_limit:
  assumes "0 \<le> limit" and "mem \<noteq> []" and "\<forall>s\<in>set mem. \<exists>ts. tok s = Inr ts"
    and "tok (last mem) = Inr ts" and "limit < int (length ts)"
  shows "trim tok limit mem = Some (None, [])"
  using assms(2,3,4)
proof (induction mem)
  case Nil
  then show ?case by simp
next
  case (Cons x xs)
  from message_length_defined [OF Cons.prems(2)] obtain n where
    n: "message_length tok (x # xs) = Inr n" by blast
  have "last (x # xs) \<in> set (x # xs)" by simp
  from message_length_ge_member [OF n this Cons.prems(3)] assms(5) have over: "limit < int n"
    by simp
  have step: "trim tok limit (x # xs) = trim tok limit xs"
    using n over by (subst trim.simps) simp
  show ?case
  proof (cases "xs = []")
    case True
    have "trim tok limit [] = Some (None, [])" using assms(1) by (subst trim.simps) simp
    with step True show ?thesis by simp
  next
    case False
    with Cons.prems have "\<forall>s\<in>set xs. \<exists>ts. tok s = Inr ts" "tok (last xs) = Inr ts" by simp_all
    from Cons.IH [OF False this] step show ?thesis by simp
  qed
qed

text \<open>
  C2, as the code behaves. The loop has no guard for the last entry: it drops from the front
  until the total fits. So when a call with a non-negative \<open>token_limit\<close> raises nothing
  (neither in the loop over the messages nor in the encoder) and the newest entry of the
  buffer alone has more tokens than \<open>token_limit\<close>, every entry is evicted, the newest one
  too, and the buffer is empty when the call returns.
\<close>

theorem newest_entry_evicted_when_over_limit:
  assumes "0 \<le> token_limit self"
    and "append_messages py_str (current_memory self) messages = (None, mem)"
    and "\<forall>s\<in>set mem. \<exists>ts. tokenizer self s = Inr ts"
    and "mem \<noteq> []"
    and "tokenizer self (last mem) = Inr ts"
    and "token_limit self < int (length ts)"
  shows "aput py_str self messages = Some (Returned, self\<lparr>current_memory := []\<rparr>)"
  using assms(2) trim_newest_over_limit [OF assms(1) assms(4) assms(3) assms(5) assms(6)]
  by (simp add: aput_def)

theorem newest_entry_evicted_when_over_limit_witness:
  "aput (\<lambda>kwargs. Inr []) \<lparr>current_memory = [''Hi''], token_limit = 3, tokenizer = char_tokenizer\<rparr>
        [\<lparr>role = USER, blocks = [TextBlock ''Hello''], additional_kwargs = []\<rparr>]
     = Some (Returned, \<lparr>current_memory = [], token_limit = 3, tokenizer = char_tokenizer\<rparr>)"
  using newest_entry_evicted_when_over_limit
    [of "\<lparr>current_memory = [''Hi''], token_limit = 3, tokenizer = char_tokenizer\<rparr>"
        "\<lambda>kwargs. Inr []"
        "[\<lparr>role = USER, blocks = [TextBlock ''Hello''], additional_kwargs = []\<rparr>]"
        "[''Hi'', ''Hello'']" "map of_char ''Hello''"]
  by (simp add: memory_str_def NL_def char_tokenizer_def)

text \<open>
  C2 as stated fails: with one token per character and a limit of 3, putting \<open>Hello\<close>
  (5 tokens) leaves no entry in the buffer, not the one newest entry.
\<close>

theorem newest_entry_kept_counterexample:
  "aput (\<lambda>kwargs. Inr []) \<lparr>current_memory = [''Hi''], token_limit = 3, tokenizer = char_tokenizer\<rparr>
        [\<lparr>role = USER, blocks = [TextBlock ''Hello''], additional_kwargs = []\<rparr>]
     = Some (Returned, \<lparr>current_memory = [], token_limit = 3, tokenizer = char_tokenizer\<rparr>)
   \<and> memory_str (\<lambda>kwargs. Inr []) \<lparr>role = USER, blocks = [TextBlock ''Hello''], additional_kwargs = []\<rparr>
       = Inr ''Hello''
   \<and> char_tokenizer ''Hello'' = Inr [72, 101, 108, 108, 111]
   \<and> (3::int) < int (length [72, 101, 108, 108, 111 :: nat])"
  by (simp add: aput_def memory_str_def NL_def trim.simps char_tokenizer_def)

subsection \<open>A token limit of zero or below\<close>

lemma aput_negative_limit:
  assumes "token_limit self < 0"
    and "append_messages py_str (current_memory self) messages = (None, mem)"
    and "\<forall>s\<in>set mem. \<exists>ts. tokenizer self s = Inr ts"
  shows "aput py_str self messages = None"
  using assms(2) trim_negative [OF assms(1) assms(3)] by (simp add: aput_def)

text \<open>
  C3, as the code behaves, for a limit of zero. A call that raises nothing returns, and
  the entries it leaves have no tokens at all (the loop stops as soon as the total is 0,
  which an entry without tokens does not change). When every entry of the buffer has at
  least one token, the buffer is empty afterwards and \<open>_aget\<close> returns the empty string.
\<close>

theorem zero_limit_leaves_zero_token_entries:
  assumes "token_limit self = 0"
    and "append_messages py_str (current_memory self) messages = (None, mem)"
    and "\<forall>s\<in>set mem. \<exists>ts. tokenizer self s = Inr ts"
  shows "\<exists>mem'. aput py_str self messages = Some (Returned, self\<lparr>current_memory := mem'\<rparr>) \<and>
           message_length (tokenizer self) mem' = Inr 0 \<and>
           (\<forall>s\<in>set mem'. tokenizer self s = Inr []) \<and>
           ((\<forall>s\<in>set mem. tokenizer self s \<noteq> Inr []) \<longrightarrow>
              mem' = [] \<and> fst (aget (self\<lparr>current_memory := mem'\<rparr>)) = [])"
proof -
  have "0 \<le> token_limit self" using assms(1) by simp
  from trim_total [OF this, of "tokenizer self" mem] obtain r mem' where
    t: "trim (tokenizer self) (token_limit self) mem = Some (r, mem')" by force
  from trim_encodable [OF t assms(3)] have r: "r = None" .
  have put: "aput py_str self messages = Some (Returned, self\<lparr>current_memory := mem'\<rparr>)"
    using assms(2) t r by (simp add: aput_def)
  from trim_Returned_budget [OF t [unfolded r]] assms(1)
  have zero: "message_length (tokenizer self) mem' = Inr 0" by auto
  then have all: "\<forall>s\<in>set mem'. tokenizer self s = Inr []" by (rule message_length_zero)
  from trim_Some_drop [OF t] obtain k where k: "mem' = drop k mem" by auto
  have "(\<forall>s\<in>set mem. tokenizer self s \<noteq> Inr []) \<longrightarrow>
          mem' = [] \<and> fst (aget (self\<lparr>current_memory := mem'\<rparr>)) = []"
  proof
    assume pos: "\<forall>s\<in>set mem. tokenizer self s \<noteq> Inr []"
    have "mem' = []"
    proof (rule ccontr)
      assume "mem' \<noteq> []"
      then obtain s where s: "s \<in> set mem'" by (cases mem') auto
      with k have "s \<in> set mem" by (auto dest: in_set_dropD)
      with pos all s show False by blast
    qed
    then show "mem' = [] \<and> fst (aget (self\<lparr>current_memory := mem'\<rparr>)) = []"
      by (simp add: aget_def)
  qed
  with put zero all show ?thesis by blast
qed

theorem zero_limit_leaves_zero_token_entries_witness:
  "\<exists>mem'. aput (\<lambda>kwargs. Inr []) \<lparr>current_memory = [''old''], token_limit = 0, tokenizer = char_tokenizer\<rparr>
        [\<lparr>role = USER, blocks = [TextBlock ''Hello''], additional_kwargs = []\<rparr>]
      = Some (Returned, \<lparr>current_memory = mem', token_limit = 0, tokenizer = char_tokenizer\<rparr>) \<and>
     mem' = [] \<and>
     fst (aget \<lparr>current_memory = mem', token_limit = 0, tokenizer = char_tokenizer\<rparr>) = []"
  using zero_limit_leaves_zero_token_entries
    [of "\<lparr>current_memory = [''old''], token_limit = 0, tokenizer = char_tokenizer\<rparr>"
        "\<lambda>kwargs. Inr []"
        "[\<lparr>role = USER, blocks = [TextBlock ''Hello''], additional_kwargs = []\<rparr>]"
        "[''old'', ''Hello'']"]
  by (simp add: memory_str_def NL_def char_tokenizer_def)

text \<open>
  C3 as stated fails twice. With a limit of \<open>-1\<close> the call never returns: the total of the
  empty buffer is 0, still above the limit, and \<open>[][1:]\<close> is \<open>[]\<close> again. With a limit of 0
  two messages without text and without attributes leave two empty entries, and \<open>_aget\<close>
  returns a newline.
\<close>

theorem zero_or_negative_limit_counterexample:
  "aput (\<lambda>kwargs. Inr []) \<lparr>current_memory = [], token_limit = - 1, tokenizer = char_tokenizer\<rparr>
        [\<lparr>role = USER, blocks = [TextBlock ''Hello''], additional_kwargs = []\<rparr>] = None
   \<and> aput (\<lambda>kwargs. Inr []) \<lparr>current_memory = [], token_limit = 0, tokenizer = char_tokenizer\<rparr>
        [\<lparr>role = USER, blocks = [TextBlock ''''], additional_kwargs = []\<rparr>,
         \<lparr>role = USER, blocks = [], additional_kwargs = []\<rparr>]
       = Some (Returned, \<lparr>current_memory = ['''', ''''], token_limit = 0, tokenizer = char_tokenizer\<rparr>)
   \<and> fst (aget \<lparr>current_memory = ['''', ''''], token_limit = 0, tokenizer = char_tokenizer\<rparr>) = [CHR 0x0A]"
proof -
  have "aput (\<lambda>kwargs. Inr []) \<lparr>current_memory = [], token_limit = - 1, tokenizer = char_tokenizer\<rparr>
        [\<lparr>role = USER, blocks = [TextBlock ''Hello''], additional_kwargs = []\<rparr>] = None"
    by (rule aput_negative_limit [where mem = "[''Hello'']"])
       (simp_all add: memory_str_def NL_def char_tokenizer_def)
  moreover have "aput (\<lambda>kwargs. Inr []) \<lparr>current_memory = [], token_limit = 0, tokenizer = char_tokenizer\<rparr>
        [\<lparr>role = USER, blocks = [TextBlock ''''], additional_kwargs = []\<rparr>,
         \<lparr>role = USER, blocks = [], additional_kwargs = []\<rparr>]
       = Some (Returned, \<lparr>current_memory = ['''', ''''], token_limit = 0, tokenizer = char_tokenizer\<rparr>)"
    by (simp add: aput_def memory_str_def NL_def trim.simps char_tokenizer_def)
  moreover have "fst (aget \<lparr>current_memory = ['''', ''''], token_limit = 0, tokenizer = char_tokenizer\<rparr>) = [CHR 0x0A]"
    by (simp add: aget_def NL_def)
  ultimately show ?thesis by blast
qed

subsection \<open>An empty batch\<close>

text \<open>
  C8, as the code behaves. The trimming runs after every batch, also an empty one. When the
  encoder gives a token list for every entry of the buffer and the lengths add up to at
  most \<open>token_limit\<close>, \<open>_aput\<close> with no messages returns and leaves the block, and so the
  entries and their total, as they were.
\<close>

theorem empty_put_is_noop_within_budget:
  assumes "map (tokenizer self) (current_memory self) = map Inr toks"
    and "int (sum_list (map length toks)) \<le> token_limit self"
  shows "aput py_str self [] = Some (Returned, self)"
  using trim_within_budget [OF message_length_of_encoded [OF assms(1)] assms(2)]
  by (simp add: aput_def)

theorem empty_put_is_noop_within_budget_witness:
  "aput (\<lambda>kwargs. Inr []) \<lparr>current_memory = [''Hello''], token_limit = 5, tokenizer = char_tokenizer\<rparr> []
     = Some (Returned, \<lparr>current_memory = [''Hello''], token_limit = 5, tokenizer = char_tokenizer\<rparr>)"
  using empty_put_is_noop_within_budget
    [of "\<lparr>current_memory = [''Hello''], token_limit = 5, tokenizer = char_tokenizer\<rparr>"
        "[map of_char ''Hello'']" "\<lambda>kwargs. Inr []"]
  by (simp add: char_tokenizer_def)

text \<open>
  C8 as stated fails for a block that is not within its budget: with a limit of \<open>-1\<close> the
  call on the empty buffer never returns, and a buffer that holds \<open>Hello\<close> (5 tokens) under a
  limit of 3 is emptied by a call without messages.
\<close>

theorem empty_put_is_noop_counterexample:
  "aput (\<lambda>kwargs. Inr []) \<lparr>current_memory = [], token_limit = - 1, tokenizer = char_tokenizer\<rparr> [] = None
   \<and> aput (\<lambda>kwargs. Inr []) \<lparr>current_memory = [''Hello''], token_limit = 3, tokenizer = char_tokenizer\<rparr> []
       = Some (Returned, \<lparr>current_memory = [], token_limit = 3, tokenizer = char_tokenizer\<rparr>)"
proof -
  have "aput (\<lambda>kwargs. Inr []) \<lparr>current_memory = [], token_limit = - 1, tokenizer = char_tokenizer\<rparr> [] = None"
    by (rule aput_negative_limit [where mem = "[]"]) simp_all
  moreover have "aput (\<lambda>kwargs. Inr []) \<lparr>current_memory = [''Hello''], token_limit = 3, tokenizer = char_tokenizer\<rparr> []
       = Some (Returned, \<lparr>current_memory = [], token_limit = 3, tokenizer = char_tokenizer\<rparr>)"
    by (simp add: aput_def trim.simps char_tokenizer_def)
  ultimately show ?thesis by blast
qed

subsection \<open>Reading the buffer\<close>

lemma join_closed_form:
  "join sep (x # xs) = x @ concat (map (\<lambda>y. sep @ y) xs)"
  by (induction xs arbitrary: x) auto

text \<open>
  C6. \<open>_aget\<close> returns the entries in buffer order with one newline between neighbours
  (the first entry, then a newline and the entry for each later one), leaves the block as
  it was, returns the empty string for the empty buffer, and a second call right after the
  first returns the same string.
\<close>

theorem aget_joins_and_is_pure:
  "fst (aget self) =
     (case current_memory self of [] \<Rightarrow> [] | e # es \<Rightarrow> e @ concat (map (\<lambda>x. CHR 0x0A # x) es))
   \<and> snd (aget self) = self
   \<and> (current_memory self = [] \<longrightarrow> fst (aget self) = [])
   \<and> fst (aget (snd (aget self))) = fst (aget self)"
  by (simp add: aget_def NL_def join_closed_form split: list.splits)

theorem aget_joins_and_is_pure_witness:
  "fst (aget \<lparr>current_memory = [], token_limit = 5, tokenizer = char_tokenizer\<rparr>) = []
   \<and> fst (aget \<lparr>current_memory = [''a'', ''b''], token_limit = 5, tokenizer = char_tokenizer\<rparr>) = [CHR ''a'', CHR 0x0A, CHR ''b'']"
  using aget_joins_and_is_pure [of "\<lparr>current_memory = [], token_limit = 5, tokenizer = char_tokenizer\<rparr>"]
    aget_joins_and_is_pure [of "\<lparr>current_memory = [''a'', ''b''], token_limit = 5, tokenizer = char_tokenizer\<rparr>"]
  by simp

subsection \<open>The filtered attributes\<close>

lemma dict_setitem_fresh: "k \<notin> fst ` set d \<Longrightarrow> dict_setitem d k v = d @ [(k, v)]"
  by (induction d) auto

lemma list_all2_member:
  "list_all2 P xs ys \<Longrightarrow> x \<in> set xs \<Longrightarrow> \<exists>y\<in>set ys. P x y"
  by (induction rule: list_all2_induct) auto

lemma reduce_all_shape:
  "reduce_all recs = Inr rs \<Longrightarrow>
     list_all2 (\<lambda>r red. \<exists>f n a. py_getitem r ''function'' = Inr f \<and> py_getitem f ''name'' = Inr n
                  \<and> py_getitem f ''arguments'' = Inr a \<and> red = PyDict [(''name'', n), (''args'', a)])
       recs rs"
proof (induction recs arbitrary: rs)
  case Nil
  then show ?case by simp
next
  case (Cons r recs)
  from Cons.prems obtain red rs' where
    red: "reduce_tool_call r = Inr red" and rest: "reduce_all recs = Inr rs'" and rs: "rs = red # rs'"
    by (auto split: sum.splits)
  from red have "\<exists>f n a. py_getitem r ''function'' = Inr f \<and> py_getitem f ''name'' = Inr n
                  \<and> py_getitem f ''arguments'' = Inr a \<and> red = PyDict [(''name'', n), (''args'', a)]"
    by (auto simp: reduce_tool_call_def split: sum.splits)
  with Cons.IH [OF rest] rs show ?case by simp
qed

lemma filter_kwargs_shape:
  "filter_kwargs acc items = Inr out \<Longrightarrow> distinct (map fst items) \<Longrightarrow>
   fst ` set acc \<inter> fst ` set items = {} \<Longrightarrow>
   \<exists>new. out = acc @ new \<and>
     list_all2 (\<lambda>item res. fst res = fst item \<and>
                  (if fst item = ''tool_calls'' then reduce_tool_calls (snd item) = Inr (snd res)
                   else snd res = snd item))
       (filter (\<lambda>item. fst item \<noteq> ''session_id'' \<and> fst item \<noteq> ''tool_call_id'') items) new"
proof (induction items arbitrary: acc)
  case Nil
  then show ?case by simp
next
  case (Cons item items)
  obtain key val where item: "item = (key, val)" by (cases item)
  have fresh: "key \<notin> fst ` set acc" using Cons.prems(3) item by auto
  have dist: "distinct (map fst items)" and notin: "key \<notin> fst ` set items"
    using Cons.prems(2) item by auto
  have disj: "fst ` set acc \<inter> fst ` set items = {}" using Cons.prems(3) by auto
  show ?case
  proof (cases "key = ''tool_calls''")
    case True
    with Cons.prems(1) item obtain val' where
      red: "reduce_tool_calls val = Inr val'" and
      rest: "filter_kwargs (dict_setitem acc key val') items = Inr out"
      by (auto split: sum.splits)
    from rest fresh have rest': "filter_kwargs (acc @ [(key, val')]) items = Inr out"
      by (simp add: dict_setitem_fresh)
    have "fst ` set (acc @ [(key, val')]) \<inter> fst ` set items = {}"
      using disj notin by auto
    from Cons.IH [OF rest' dist this] obtain new where
      new: "out = (acc @ [(key, val')]) @ new"
        "list_all2 (\<lambda>item res. fst res = fst item \<and>
                  (if fst item = ''tool_calls'' then reduce_tool_calls (snd item) = Inr (snd res)
                   else snd res = snd item))
         (filter (\<lambda>item. fst item \<noteq> ''session_id'' \<and> fst item \<noteq> ''tool_call_id'') items) new"
      by blast
    show ?thesis
      using new red True item by (intro exI[of _ "(key, val') # new"]) simp
  next
    case False
    show ?thesis
    proof (cases "key \<noteq> ''session_id'' \<and> key \<noteq> ''tool_call_id''")
      case True
      with Cons.prems(1) item False fresh
      have rest': "filter_kwargs (acc @ [(key, val)]) items = Inr out"
        by (simp add: dict_setitem_fresh)
      have "fst ` set (acc @ [(key, val)]) \<inter> fst ` set items = {}"
        using disj notin by auto
      from Cons.IH [OF rest' dist this] obtain new where
        new: "out = (acc @ [(key, val)]) @ new"
          "list_all2 (\<lambda>item res. fst res = fst item \<and>
                  (if fst item = ''tool_calls'' then reduce_tool_calls (snd item) = Inr (snd res)
                   else snd res = snd item))
           (filter (\<lambda>item. fst item \<noteq> ''session_id'' \<and> fst item \<noteq> ''tool_call_id'') items) new"
        by blast
      show ?thesis
        using new True False item by (intro exI[of _ "(key, val) # new"]) simp
    next
      case dropped: False
      with Cons.prems(1) item \<open>key \<noteq> ''tool_calls''\<close>
      have rest': "filter_kwargs acc items = Inr out" by auto
      from Cons.IH [OF rest' dist disj] dropped item show ?thesis by auto
    qed
  qed
qed

lemma list_all2_map_fst:
  "list_all2 (\<lambda>item res. fst res = fst item \<and> Q item res) xs ys \<Longrightarrow> map fst ys = map fst xs"
  by (induction rule: list_all2_induct) auto

text \<open>
  C5. For a dictionary (distinct keys) on which the loop raises nothing, the filtered
  mapping keeps the order of the keys and drops exactly \<open>session_id\<close> and \<open>tool_call_id\<close>;
  under \<open>tool_calls\<close> it holds the list of reduced records, one per record of the input,
  each made of \<open>name\<close> and \<open>args\<close> taken from the record's \<open>function\<close> entry; every other
  key keeps its value.
\<close>

theorem filtered_attributes:
  assumes "filter_kwargs [] kw = Inr out" and "distinct (map fst kw)"
  shows "map fst out = filter (\<lambda>k. k \<noteq> ''session_id'' \<and> k \<noteq> ''tool_call_id'') (map fst kw)
    \<and> map_of out ''session_id'' = None \<and> map_of out ''tool_call_id'' = None
    \<and> (\<forall>v. (''tool_calls'', v) \<in> set kw \<longrightarrow>
          (\<exists>recs rs. py_iter v = Inr recs \<and> map_of out ''tool_calls'' = Some (PyList rs) \<and>
             list_all2 (\<lambda>r red. \<exists>f n a. py_getitem r ''function'' = Inr f
                   \<and> py_getitem f ''name'' = Inr n \<and> py_getitem f ''arguments'' = Inr a
                   \<and> red = PyDict [(''name'', n), (''args'', a)]) recs rs))
    \<and> (\<forall>k v. (k, v) \<in> set kw \<and> k \<noteq> ''tool_calls'' \<and> k \<noteq> ''session_id'' \<and> k \<noteq> ''tool_call_id''
          \<longrightarrow> map_of out k = Some v)"
proof -
  let ?kept = "\<lambda>item::string \<times> PyVal. fst item \<noteq> ''session_id'' \<and> fst item \<noteq> ''tool_call_id''"
  let ?R = "\<lambda>(item::string \<times> PyVal) (res::string \<times> PyVal). fst res = fst item \<and>
                  (if fst item = ''tool_calls'' then reduce_tool_calls (snd item) = Inr (snd res)
                   else snd res = snd item)"
  from filter_kwargs_shape [OF assms(1) assms(2)]
  have rel: "list_all2 ?R (filter ?kept kw) out" by simp
  have keys: "map fst out = filter (\<lambda>k. k \<noteq> ''session_id'' \<and> k \<noteq> ''tool_call_id'') (map fst kw)"
    using list_all2_map_fst [OF rel] by (simp add: filter_map o_def)
  have dist: "distinct (map fst out)" using keys assms(2) by simp
  have none: "map_of out ''session_id'' = None \<and> map_of out ''tool_call_id'' = None"
  proof -
    have "''session_id'' \<notin> set (map fst out)" "''tool_call_id'' \<notin> set (map fst out)"
      unfolding keys by simp_all
    then show ?thesis by (simp add: map_of_eq_None_iff)
  qed
  have look: "\<exists>res. map_of out (fst item) = Some (snd res) \<and> ?R item res"
    if "item \<in> set kw" "?kept item" for item
  proof -
    from that have "item \<in> set (filter ?kept kw)" by simp
    from list_all2_member [OF rel this] obtain res where res: "res \<in> set out" "?R item res"
      by blast
    then have "(fst item, snd res) \<in> set out" by (metis prod.collapse)
    with dist have "map_of out (fst item) = Some (snd res)" by (rule map_of_is_SomeI)
    with res(2) show ?thesis by blast
  qed
  have tool: "\<forall>v. (''tool_calls'', v) \<in> set kw \<longrightarrow>
          (\<exists>recs rs. py_iter v = Inr recs \<and> map_of out ''tool_calls'' = Some (PyList rs) \<and>
             list_all2 (\<lambda>r red. \<exists>f n a. py_getitem r ''function'' = Inr f
                   \<and> py_getitem f ''name'' = Inr n \<and> py_getitem f ''arguments'' = Inr a
                   \<and> red = PyDict [(''name'', n), (''args'', a)]) recs rs)"
  proof (intro allI impI)
    fix v assume v: "(''tool_calls'', v) \<in> set kw"
    from look [OF v] obtain res where
      res: "map_of out ''tool_calls'' = Some (snd res)" "reduce_tool_calls v = Inr (snd res)"
      by auto
    from res(2) obtain recs rs where
      "py_iter v = Inr recs" "reduce_all recs = Inr rs" "snd res = PyList rs"
      by (auto simp: reduce_tool_calls_def split: sum.splits)
    with res(1) reduce_all_shape show "\<exists>recs rs. py_iter v = Inr recs \<and>
        map_of out ''tool_calls'' = Some (PyList rs) \<and>
        list_all2 (\<lambda>r red. \<exists>f n a. py_getitem r ''function'' = Inr f
                   \<and> py_getitem f ''name'' = Inr n \<and> py_getitem f ''arguments'' = Inr a
                   \<and> red = PyDict [(''name'', n), (''args'', a)]) recs rs"
      by auto
  qed
  have other: "\<forall>k v. (k, v) \<in> set kw \<and> k \<noteq> ''tool_calls'' \<and> k \<noteq> ''session_id'' \<and> k \<noteq> ''tool_call_id''
          \<longrightarrow> map_of out k = Some v"
  proof (intro allI impI)
    fix k v assume "(k, v) \<in> set kw \<and> k \<noteq> ''tool_calls'' \<and> k \<noteq> ''session_id'' \<and> k \<noteq> ''tool_call_id''"
    then show "map_of out k = Some v" using look [of "(k, v)"] by auto
  qed
  from keys none tool other show ?thesis by blast
qed

theorem filtered_attributes_witness:
  "filter_kwargs []
      [(''tool_calls'', PyList [PyDict [(''id'', PyStr ''c1''),
           (''function'', PyDict [(''name'', PyStr ''multiply''), (''arguments'', PyStr ''{}'')])]]),
       (''session_id'', PyStr ''x''), (''tool_call_id'', PyStr ''y''), (''note'', PyInt 1)]
     = Inr [(''tool_calls'', PyList [PyDict [(''name'', PyStr ''multiply''), (''args'', PyStr ''{}'')]]),
            (''note'', PyInt 1)]
   \<and> map_of [(''tool_calls'', PyList [PyDict [(''name'', PyStr ''multiply''), (''args'', PyStr ''{}'')]]),
            (''note'', PyInt 1)] ''session_id'' = None
   \<and> map_of [(''tool_calls'', PyList [PyDict [(''name'', PyStr ''multiply''), (''args'', PyStr ''{}'')]]),
            (''note'', PyInt 1)] ''note'' = Some (PyInt 1)"
proof -
  have h: "filter_kwargs []
      [(''tool_calls'', PyList [PyDict [(''id'', PyStr ''c1''),
           (''function'', PyDict [(''name'', PyStr ''multiply''), (''arguments'', PyStr ''{}'')])]]),
       (''session_id'', PyStr ''x''), (''tool_call_id'', PyStr ''y''), (''note'', PyInt 1)]
     = Inr [(''tool_calls'', PyList [PyDict [(''name'', PyStr ''multiply''), (''args'', PyStr ''{}'')]]),
            (''note'', PyInt 1)]"
    by (simp add: reduce_tool_calls_def reduce_tool_call_def)
  have d: "distinct (map fst
      [(''tool_calls'', PyList [PyDict [(''id'', PyStr ''c1''),
           (''function'', PyDict [(''name'', PyStr ''multiply''), (''arguments'', PyStr ''{}'')])]]),
       (''session_id'', PyStr ''x''), (''tool_call_id'', PyStr ''y''), (''note'', PyInt 1)])"
    by simp
  from filtered_attributes [OF h d] have
    "map_of [(''tool_calls'', PyList [PyDict [(''name'', PyStr ''multiply''), (''args'', PyStr ''{}'')]]),
            (''note'', PyInt 1)] ''session_id'' = None
     \<and> map_of [(''tool_calls'', PyList [PyDict [(''name'', PyStr ''multiply''), (''args'', PyStr ''{}'')]]),
            (''note'', PyInt 1)] ''note'' = Some (PyInt 1)"
    by simp
  with h show ?thesis by blast
qed

subsection \<open>The entry appended for a message\<close>


lemma join_char_closed_form:
  "join [c] (x # xs) = x @ concat (map (\<lambda>y. c # y) xs)"
  by (induction xs arbitrary: x) auto

lemma join_closed_form_list:
  "join [c] xs = (case xs of [] \<Rightarrow> [] | x # rest \<Rightarrow> x @ concat (map (\<lambda>y. c # y) rest))"
  by (cases xs) (simp_all add: join_char_closed_form)




subsection \<open>Insertion order\<close>

lemma append_messages_shape:
  "append_messages py_str mem ms = (r, mem') \<Longrightarrow>
     \<exists>processed es. prefix processed ms \<and> (r = None \<longrightarrow> processed = ms) \<and>
        list_all2 (\<lambda>m s. memory_str py_str m = Inr s) processed es \<and> mem' = mem @ es"
proof (induction ms arbitrary: mem)
  case Nil
  then show ?case by simp
next
  case (Cons m ms)
  show ?case
  proof (cases "memory_str py_str m")
    case (Inl e)
    with Cons.prems have "mem' = mem" "r = Some e" by auto
    then show ?thesis by (intro exI[of _ "[]"]) simp
  next
    case (Inr s)
    with Cons.prems have "append_messages py_str (mem @ [s]) ms = (r, mem')" by simp
    from Cons.IH [OF this] obtain processed es where
      p: "prefix processed ms" "r = None \<longrightarrow> processed = ms"
         "list_all2 (\<lambda>m s. memory_str py_str m = Inr s) processed es" "mem' = (mem @ [s]) @ es"
      by blast
    show ?thesis
      using p Inr by (intro exI[of _ "m # processed"] exI[of _ "s # es"]) simp
  qed
qed

lemma aput_shape:
  assumes "aput py_str self ms = Some (r, self')"
  shows "\<exists>processed es k. prefix processed ms \<and> (r = Returned \<longrightarrow> processed = ms) \<and>
        list_all2 (\<lambda>m s. memory_str py_str m = Inr s) processed es \<and>
        k \<le> length (current_memory self @ es) \<and>
        current_memory self' = drop k (current_memory self @ es)"
proof (cases "append_messages py_str (current_memory self) ms")
  case (Pair e mem)
  from append_messages_shape [OF Pair] obtain processed es where
    p: "prefix processed ms" "e = None \<longrightarrow> processed = ms"
       "list_all2 (\<lambda>m s. memory_str py_str m = Inr s) processed es" "mem = current_memory self @ es"
    by blast
  show ?thesis
  proof (cases e)
    case None
    with assms Pair obtain y where
      t: "trim (tokenizer self) (token_limit self) mem = Some y" and
      s: "current_memory self' = snd y"
      by (auto simp: aput_def split: option.splits)
    from trim_Some_drop [OF t] obtain k where "k \<le> length mem" "snd y = drop k mem" by blast
    with p None s show ?thesis by (intro exI[of _ processed] exI[of _ es] exI[of _ k]) simp
  next
    case (Some err)
    with assms Pair have "r = Raised err" "self' = self\<lparr>current_memory := mem\<rparr>"
      by (auto simp: aput_def)
    with p show ?thesis by (intro exI[of _ processed] exI[of _ es] exI[of _ 0]) simp
  qed
qed

lemma drop_twice:
  "k1 \<le> length xs \<Longrightarrow> ys = drop k1 xs \<Longrightarrow> zs' = drop k2 (ys @ zs) \<Longrightarrow>
     zs' = drop (k1 + k2) (xs @ zs)"
  by (simp add: add.commute)

lemma aput_calls_shape:
  "aput_calls py_str self calls = Some (r, self') \<Longrightarrow>
     \<exists>processed es k. prefix processed (concat calls) \<and> (r = Returned \<longrightarrow> processed = concat calls) \<and>
        list_all2 (\<lambda>m s. memory_str py_str m = Inr s) processed es \<and>
        k \<le> length (current_memory self @ es) \<and>
        current_memory self' = drop k (current_memory self @ es)"
proof (induction calls arbitrary: self)
  case Nil
  then show ?case by (intro exI[of _ "[]"] exI[of _ 0]) simp
next
  case (Cons ms calls)
  from Cons.prems obtain r1 self1 where step: "aput py_str self ms = Some (r1, self1)"
    by (auto split: option.splits)
  from aput_shape [OF step] obtain p1 es1 k1 where
    s1: "prefix p1 ms" "r1 = Returned \<longrightarrow> p1 = ms"
        "list_all2 (\<lambda>m s. memory_str py_str m = Inr s) p1 es1"
        "k1 \<le> length (current_memory self @ es1)"
        "current_memory self1 = drop k1 (current_memory self @ es1)"
    by blast
  show ?case
  proof (cases r1)
    case (Raised e)
    with step Cons.prems have "r = Raised e" "self' = self1" by auto
    moreover have "prefix p1 (concat (ms # calls))" using s1(1) by (auto simp: prefix_def)
    ultimately show ?thesis
      using s1 by (intro exI[of _ p1] exI[of _ es1] exI[of _ k1]) simp
  next
    case Returned
    with step Cons.prems have rest: "aput_calls py_str self1 calls = Some (r, self')" by simp
    from Cons.IH [OF rest] obtain p2 es2 k2 where
      s2: "prefix p2 (concat calls)" "r = Returned \<longrightarrow> p2 = concat calls"
          "list_all2 (\<lambda>m s. memory_str py_str m = Inr s) p2 es2"
          "k2 \<le> length (current_memory self1 @ es2)"
          "current_memory self' = drop k2 (current_memory self1 @ es2)"
      by blast
    from Returned s1(2) have p1: "p1 = ms" by simp
    have "prefix (ms @ p2) (concat (ms # calls))" using s2(1) by simp
    moreover have "r = Returned \<longrightarrow> ms @ p2 = concat (ms # calls)" using s2(2) by simp
    moreover have "list_all2 (\<lambda>m s. memory_str py_str m = Inr s) (ms @ p2) (es1 @ es2)"
      using s1(3) s2(3) p1 by (simp add: list_all2_appendI)
    moreover have "k1 + k2 \<le> length (current_memory self @ es1 @ es2)"
      using s1(4) s2(4) s1(5) by simp
    moreover have "current_memory self' = drop (k1 + k2) (current_memory self @ es1 @ es2)"
      using drop_twice [OF s1(4) s1(5) s2(5)] by (simp only: append_assoc)
    ultimately show ?thesis by blast
  qed
qed

lemma drop_keeps_positions:
  "k \<le> length xs \<Longrightarrow> ys = drop k xs \<Longrightarrow>
     \<forall>i j. i < j \<and> j < length ys \<longrightarrow> ys ! i = xs ! (k + i) \<and> ys ! j = xs ! (k + j)"
  by (simp add: nth_drop)

text \<open>
  C7. After any sequence of \<open>_aput\<close> calls the buffer is what is left of the initial
  entries followed by the entries of the processed messages, in that order, once some
  number \<open>k\<close> of entries is dropped from the front. \<open>_aget\<close> then returns exactly these
  remaining entries, first to last, with one newline between neighbours. Of two entries
  that remain, the one further to the front was inserted first: the entries at \<open>i < j\<close> are
  the insertions number \<open>k + i\<close> and \<open>k + j\<close>.
\<close>

theorem fifo_order_preserved:
  assumes "aput_calls py_str self calls = Some (r, self')"
  shows "\<exists>processed es k. prefix processed (concat calls) \<and>
        (r = Returned \<longrightarrow> processed = concat calls) \<and>
        list_all2 (\<lambda>m s. memory_str py_str m = Inr s) processed es \<and>
        k \<le> length (current_memory self @ es) \<and>
        current_memory self' = drop k (current_memory self @ es) \<and>
        fst (aget self') =
          (case drop k (current_memory self @ es) of
             [] \<Rightarrow> []
           | e # rest \<Rightarrow> e @ concat (map (\<lambda>x. CHR 0x0A # x) rest)) \<and>
        (\<forall>i j. i < j \<and> j < length (current_memory self') \<longrightarrow>
           current_memory self' ! i = (current_memory self @ es) ! (k + i) \<and>
           current_memory self' ! j = (current_memory self @ es) ! (k + j))"
proof -
  from aput_calls_shape [OF assms] obtain processed es k where
    s: "prefix processed (concat calls)" "r = Returned \<longrightarrow> processed = concat calls"
       "list_all2 (\<lambda>m s. memory_str py_str m = Inr s) processed es"
       "k \<le> length (current_memory self @ es)"
       "current_memory self' = drop k (current_memory self @ es)"
    by blast
  define all where "all = current_memory self @ es"
  have "fst (aget self') = join [CHR 0x0A] (drop k all)"
    using s(5) by (simp add: aget_def NL_def all_def)
  then have out: "fst (aget self') =
      (case drop k all of [] \<Rightarrow> [] | e # rest \<Rightarrow> e @ concat (map (\<lambda>x. CHR 0x0A # x) rest))"
    by (simp only: join_closed_form_list)
  have pos: "\<forall>i j. i < j \<and> j < length (current_memory self') \<longrightarrow>
           current_memory self' ! i = all ! (k + i) \<and>
           current_memory self' ! j = all ! (k + j)"
    using drop_keeps_positions [OF s(4) s(5)] by (simp only: all_def)
  from s out pos show ?thesis unfolding all_def by blast
qed

theorem fifo_order_preserved_witness:
  "aput_calls (\<lambda>kwargs. Inr [])
      \<lparr>current_memory = [''one two''], token_limit = 5, tokenizer = word_tokenizer\<rparr>
      [[\<lparr>role = USER, blocks = [TextBlock ''three four''], additional_kwargs = []\<rparr>],
       [\<lparr>role = ASSISTANT, blocks = [TextBlock ''five six seven''], additional_kwargs = []\<rparr>]]
     = Some (Returned, \<lparr>current_memory = [''three four'', ''five six seven''], token_limit = 5,
                         tokenizer = word_tokenizer\<rparr>)
   \<and> (\<exists>es k. [''three four'', ''five six seven''] = drop k ([''one two''] @ es) \<and>
         fst (aget \<lparr>current_memory = [''three four'', ''five six seven''], token_limit = 5,
                    tokenizer = word_tokenizer\<rparr>)
           = (case drop k ([''one two''] @ es) of
                [] \<Rightarrow> []
              | e # rest \<Rightarrow> e @ concat (map (\<lambda>x. CHR 0x0A # x) rest)))
   \<and> fst (aget \<lparr>current_memory = [''three four'', ''five six seven''], token_limit = 5,
                    tokenizer = word_tokenizer\<rparr>)
       = ''three four'' @ [CHR 0x0A] @ ''five six seven''"
proof -
  have h: "aput_calls (\<lambda>kwargs. Inr [])
      \<lparr>current_memory = [''one two''], token_limit = 5, tokenizer = word_tokenizer\<rparr>
      [[\<lparr>role = USER, blocks = [TextBlock ''three four''], additional_kwargs = []\<rparr>],
       [\<lparr>role = ASSISTANT, blocks = [TextBlock ''five six seven''], additional_kwargs = []\<rparr>]]
     = Some (Returned, \<lparr>current_memory = [''three four'', ''five six seven''], token_limit = 5,
                         tokenizer = word_tokenizer\<rparr>)"
    by (simp add: aput_def memory_str_def NL_def trim.simps word_tokenizer_def)
  from fifo_order_preserved [OF h] have
    "\<exists>es k. [''three four'', ''five six seven''] = drop k ([''one two''] @ es) \<and>
         fst (aget \<lparr>current_memory = [''three four'', ''five six seven''], token_limit = 5,
                    tokenizer = word_tokenizer\<rparr>)
           = (case drop k ([''one two''] @ es) of
                [] \<Rightarrow> []
              | e # rest \<Rightarrow> e @ concat (map (\<lambda>x. CHR 0x0A # x) rest))"
    by (simp del: drop_append) blast
  moreover have "fst (aget \<lparr>current_memory = [''three four'', ''five six seven''], token_limit = 5,
                    tokenizer = word_tokenizer\<rparr>)
       = ''three four'' @ [CHR 0x0A] @ ''five six seven''"
    by (simp add: aget_def NL_def)
  ultimately show ?thesis using h by blast
qed

subsection \<open>The role of a message\<close>

lemma append_messages_cong:
  "memory_str py_str m1 = memory_str py_str m2 \<Longrightarrow>
     append_messages py_str mem (pre @ m1 # post) = append_messages py_str mem (pre @ m2 # post)"
  by (induction pre arbitrary: mem) (auto split: sum.splits)

text \<open>
  C9. Two messages with the same blocks and the same \<open>additional_kwargs\<close> give the same
  entry (or the same exception), whatever their roles, and a batch with one in place of the
  other has the same outcome and leaves the same block.
\<close>

theorem entry_independent_of_role:
  assumes "blocks m1 = blocks m2" and "additional_kwargs m1 = additional_kwargs m2"
  shows "memory_str py_str m1 = memory_str py_str m2 \<and>
         aput py_str self (pre @ m1 # post) = aput py_str self (pre @ m2 # post)"
proof -
  have eq: "memory_str py_str m1 = memory_str py_str m2" using assms by (simp add: memory_str_def)
  from append_messages_cong [OF eq] have
    "append_messages py_str (current_memory self) (pre @ m1 # post) =
     append_messages py_str (current_memory self) (pre @ m2 # post)" .
  then have "aput py_str self (pre @ m1 # post) = aput py_str self (pre @ m2 # post)"
    by (simp add: aput_def)
  with eq show ?thesis by simp
qed

theorem entry_independent_of_role_witness:
  "memory_str (\<lambda>kwargs. Inr (concat (map fst kwargs)))
       \<lparr>role = USER, blocks = [TextBlock ''Hi''], additional_kwargs = [(''note'', PyInt 1)]\<rparr>
     = memory_str (\<lambda>kwargs. Inr (concat (map fst kwargs)))
       \<lparr>role = TOOL, blocks = [TextBlock ''Hi''], additional_kwargs = [(''note'', PyInt 1)]\<rparr>
   \<and> aput (\<lambda>kwargs. Inr (concat (map fst kwargs)))
        \<lparr>current_memory = [], token_limit = 50, tokenizer = char_tokenizer\<rparr>
        [\<lparr>role = USER, blocks = [TextBlock ''Hi''], additional_kwargs = [(''note'', PyInt 1)]\<rparr>]
     = aput (\<lambda>kwargs. Inr (concat (map fst kwargs)))
        \<lparr>current_memory = [], token_limit = 50, tokenizer = char_tokenizer\<rparr>
        [\<lparr>role = TOOL, blocks = [TextBlock ''Hi''], additional_kwargs = [(''note'', PyInt 1)]\<rparr>]"
  using entry_independent_of_role
    [of "\<lparr>role = USER, blocks = [TextBlock ''Hi''], additional_kwargs = [(''note'', PyInt 1)]\<rparr>"
        "\<lparr>role = TOOL, blocks = [TextBlock ''Hi''], additional_kwargs = [(''note'', PyInt 1)]\<rparr>"
        "\<lambda>kwargs. Inr (concat (map fst kwargs))"
        "\<lparr>current_memory = [], token_limit = 50, tokenizer = char_tokenizer\<rparr>" "[]" "[]"]
  by simp

subsection \<open>Well-formed tool-call records\<close>









end
